theory Spec2Isabelle
  imports Complex_Main "HOL-Library.Word"
begin

section \<open>Python strings\<close>

text \<open>
  A Python \<open>str\<close> is modelled as a \<open>string\<close>; a \<open>char\<close> stands for a code point below
  256 (Latin-1). The recogniser emits English text, and the trigger pattern contains ASCII
  letters and a space only.
\<close>

definition isspace :: "char \<Rightarrow> bool" where
  \<comment> \<open>\<open>str.isspace\<close> on one code point below 256: TAB..CR, FS..US, SPACE, NEL, NBSP\<close>
  "isspace c =
     (let n = (of_char c :: nat)
      in (9 \<le> n \<and> n \<le> 13) \<or> (28 \<le> n \<and> n \<le> 32) \<or> n = 133 \<or> n = 160)"

definition strip :: "string \<Rightarrow> string" where
  \<comment> \<open>\<open>s.strip()\<close>: leading and trailing whitespace removed\<close>
  "strip s = rev (dropWhile isspace (rev (dropWhile isspace s)))"

definition lower_char :: "char \<Rightarrow> char" where
  \<comment> \<open>\<open>A..Z\<close> and the Latin-1 capitals (all of 192..222 but the multiplication sign)\<close>
  "lower_char c =
     (let n = (of_char c :: nat)
      in if (65 \<le> n \<and> n \<le> 90) \<or> (192 \<le> n \<and> n \<le> 222 \<and> n \<noteq> 215)
         then char_of (n + 32) else c)"

definition lower :: "string \<Rightarrow> string" where
  \<comment> \<open>\<open>s.lower()\<close>\<close>
  "lower s = map lower_char s"

definition sub_punct :: "string \<Rightarrow> string" where
  \<comment> \<open>\<open>re.sub("[.,;:!?]", " ", s)\<close>: each punctuation mark becomes one space\<close>
  "sub_punct s = map (\<lambda>c. if c \<in> set ''.,;:!?'' then CHR '' '' else c) s"

fun join :: "string \<Rightarrow> string list \<Rightarrow> string" where
  \<comment> \<open>\<open>sep.join(xs)\<close>\<close>
  "join sep [] = []"
| "join sep [x] = x"
| "join sep (x # y # ys) = x @ sep @ join sep (y # ys)"

section \<open>The trigger pattern\<close>

text \<open>
  \<open>ptn = re.compile("([h]?an[n]?a)(.*?)(thank(?:s| you))")\<close>, matched the way Python's
  backtracking engine does: alternatives are tried in priority order (a greedy \<open>?\<close> takes
  its character first, the lazy \<open>.*?\<close> takes as few characters as it can), and the first
  complete match wins. \<open>.\<close> matches every character but the line feed.
\<close>

fun consume :: "string \<Rightarrow> string \<Rightarrow> string option" where
  \<comment> \<open>a literal: the rest of the subject after it, if the subject starts with it\<close>
  "consume [] s = Some s"
| "consume (p # ps) [] = None"
| "consume (p # ps) (c # cs) = (if p = c then consume ps cs else None)"

definition optional :: "string \<Rightarrow> string \<Rightarrow> (string \<times> string) list" where
  \<comment> \<open>greedy \<open>x?\<close>: the alternatives (text taken, rest), the one that takes \<open>x\<close> first\<close>
  "optional x s =
     (case consume x s of Some r \<Rightarrow> [(x, r)] | None \<Rightarrow> []) @ [([], s)]"

definition literal :: "string \<Rightarrow> string \<times> string \<Rightarrow> (string \<times> string) list" where
  \<comment> \<open>a literal after what has been taken so far\<close>
  "literal x = (\<lambda>(taken, s).
     case consume x s of Some r \<Rightarrow> [(taken @ x, r)] | None \<Rightarrow> [])"

definition wake :: "string \<Rightarrow> (string \<times> string) list" where
  \<comment> \<open>group 1, \<open>([h]?an[n]?a)\<close>: every way to match it at the start of \<open>s\<close>, in the
      engine's order, each with the rest of the subject\<close>
  "wake s =
     concat (map (literal ''a'')
       (concat (map (\<lambda>(taken, r). map (\<lambda>(n, r'). (taken @ n, r')) (optional ''n'' r))
         (concat (map (literal ''an'') (optional ''h'' s))))))"

definition closing :: "string \<Rightarrow> string option" where
  \<comment> \<open>group 3, \<open>(thank(?:s| you))\<close>, at the start of \<open>s\<close>: the text of the group\<close>
  "closing s =
     (case consume ''thank'' s of
        None \<Rightarrow> None
      | Some r \<Rightarrow>
          (case consume ''s'' r of
             Some _ \<Rightarrow> Some ''thanks''
           | None \<Rightarrow>
               (case consume '' you'' r of
                  Some _ \<Rightarrow> Some ''thank you''
                | None \<Rightarrow> None)))"

fun middle :: "string \<Rightarrow> (string \<times> string) option" where
  \<comment> \<open>group 2 then group 3, \<open>(.*?)(thank(?:s| you))\<close>: the shortest middle span first\<close>
  "middle [] = map_option (Pair []) (closing [])"
| "middle (c # cs) =
     (case closing (c # cs) of
        Some g3 \<Rightarrow> Some ([], g3)
      | None \<Rightarrow>
          if c = CHR 0x0A then None
          else (case middle cs of
                  None \<Rightarrow> None
                | Some (m, g3) \<Rightarrow> Some (c # m, g3)))"

fun first_match :: "(string \<times> string) list \<Rightarrow> (string \<times> string \<times> string) option" where
  \<comment> \<open>backtracking over the ways to match group 1\<close>
  "first_match [] = None"
| "first_match ((g1, r) # alts) =
     (case middle r of
        Some (g2, g3) \<Rightarrow> Some (g1, g2, g3)
      | None \<Rightarrow> first_match alts)"

definition match_at :: "string \<Rightarrow> (string \<times> string \<times> string) option" where
  \<comment> \<open>the pattern anchored at the start of \<open>s\<close>\<close>
  "match_at s = first_match (wake s)"

fun search :: "string \<Rightarrow> (string \<times> string \<times> string) option" where
  \<comment> \<open>\<open>ptn.search(s)\<close>: the leftmost start position that matches; \<open>match.groups()\<close>\<close>
  "search [] = match_at []"
| "search (c # cs) =
     (case match_at (c # cs) of
        Some g \<Rightarrow> Some g
      | None \<Rightarrow> search cs)"

definition get_cmd :: "string \<Rightarrow> string option" where
  \<comment> \<open>\<open>get_cmd(transcript, ptn)\<close>; \<open>match[1]\<close> is the stripped second group\<close>
  "get_cmd transcript =
     (let cmd = strip (sub_punct transcript)
      in case search cmd of
           Some (g1, g2, g3) \<Rightarrow> Some ([strip g1, strip g2, strip g3] ! 1)
         | None \<Rightarrow> None)"

section \<open>Audio decoding\<close>

type_synonym byte = "8 word"

datatype exn =
    ValueError | TypeError | IndexError
  | KeyboardInterrupt \<comment> \<open>raised in the main thread, wherever it is, by the interrupt signal\<close>
  | External string \<comment> \<open>any other exception of the recogniser, with its text\<close>

type_synonym float32 = real

fun frombuffer_int16 :: "byte list \<Rightarrow> exn + 16 word list" where
  \<comment> \<open>\<open>np.frombuffer(audio_data, dtype=np.int16)\<close> on a little-endian host: two bytes a
      sample, low byte first; a buffer of odd size raises ValueError\<close>
  "frombuffer_int16 [] = Inr []"
| "frombuffer_int16 [b] = Inl ValueError"
| "frombuffer_int16 (lo # hi # bs) =
     (case frombuffer_int16 bs of
        Inl e \<Rightarrow> Inl e
      | Inr ws \<Rightarrow> Inr ((word_cat hi lo :: 16 word) # ws))"

definition astype_float32 :: "16 word \<Rightarrow> float32" where
  \<comment> \<open>\<open>.astype(np.float32)\<close>: the signed value; every int16 is a float32\<close>
  "astype_float32 w = real_of_int (sint w)"

definition decode :: "byte list \<Rightarrow> exn + float32 list" where
  \<comment> \<open>\<open>np.frombuffer(audio_data, dtype=np.int16).astype(np.float32) / 32768.0\<close>\<close>
  "decode audio_data =
     (case frombuffer_int16 audio_data of
        Inl e \<Rightarrow> Inl e
      | Inr ws \<Rightarrow> Inr (map (\<lambda>w. astype_float32 w / 32768) ws))"

section \<open>The engine\<close>

type_synonym timestamp = int \<comment> \<open>a \<open>datetime\<close>, in microseconds\<close>

type_synonym recognizer = "float32 list \<Rightarrow> exn + string"
  \<comment> \<open>the pipeline: \<open>audio_model(audio_np)["text"]\<close>, or the exception that leaves the
      call; that is \<open>KeyboardInterrupt\<close> when the interrupt arrives during the call\<close>

datatype message =
    Ready \<comment> \<open>\<open>print(msg.READY.value)\<close>\<close>
  | UserSays "string option" \<comment> \<open>\<open>print(f"{msg.USERSAYS} {cmd}")\<close>, \<open>cmd\<close> a string or None\<close>
  | Line string \<comment> \<open>any other printed line\<close>

record state =
  phrase_time :: "timestamp option"
  transcription :: "string list"
  transcript :: string
  stdout :: "message list"
  calls :: "(bool \<times> float32 list) list"
    \<comment> \<open>trace of the calls to the recogniser: \<open>phrase_complete\<close> at the call, and the
        audio passed\<close>

definition segment :: "int \<Rightarrow> timestamp option \<Rightarrow> timestamp \<Rightarrow> bool \<times> timestamp option" where
  \<comment> \<open>lines 196 to 204, \<open>last_time\<close> being \<open>phrase_time\<close> before: \<open>phrase_complete\<close> and
      the new \<open>phrase_time\<close>; the timeout is
      \<open>dt.timedelta(seconds=phrase_timeout)\<close> in microseconds\<close>
  "segment phrase_timeout last_time now =
     ((case last_time of
         None \<Rightarrow> False
       | Some t \<Rightarrow> now - t > phrase_timeout),
      Some now)"

definition commit :: "string \<Rightarrow> bool \<Rightarrow> string list \<Rightarrow> exn + string list" where
  \<comment> \<open>lines 224 to 227 on \<open>transcription\<close>; \<open>transcription[-1]\<close> of an empty list raises
      IndexError\<close>
  "commit text phrase_complete lines =
     (if phrase_complete then Inr (lines @ [text])
      else if lines = [] then Inl IndexError
      else Inr (butlast lines @ [last lines @ text]))"

definition feed :: "string \<Rightarrow> string \<Rightarrow> string \<times> message list" where
  \<comment> \<open>lines 228 to 234 on \<open>transcript\<close>: its new value and what is printed\<close>
  "feed acc text =
     (let acc = acc @ text @ '' ''
      in case search (lower acc) of
           Some _ \<Rightarrow> ([], [UserSays (get_cmd (lower acc))])
         | None \<Rightarrow> (acc, []))"

definition iteration ::
  "int \<Rightarrow> recognizer option \<Rightarrow> timestamp \<Rightarrow> byte list list \<Rightarrow> state \<Rightarrow> exn \<times> state + state" where
  \<comment> \<open>one pass of the body of \<open>while True\<close>, with the clock reading \<open>now\<close> and the
      content of the queue; \<open>Inl\<close> is an exception leaving the body, with the state then.
      \<open>audio_model\<close> is None when \<open>load_model\<close> returned None: calling it raises TypeError\<close>
  "iteration phrase_timeout audio_model now queue s =
     (if queue = [] then Inr s
      else
        let (phrase_complete, pt) = segment phrase_timeout (phrase_time s) now;
            s1 = s\<lparr>phrase_time := pt\<rparr>;
            audio_data = concat queue
        in case decode audio_data of
             Inl e \<Rightarrow> Inl (e, s1)
           | Inr audio_np \<Rightarrow>
               (case audio_model of
                  None \<Rightarrow> Inl (TypeError, s1)
                | Some f \<Rightarrow>
                    let s2 = s1\<lparr>calls := calls s1 @ [(phrase_complete, audio_np)]\<rparr>
                    in case f audio_np of
                         Inl e \<Rightarrow> Inl (e, s2)
                       | Inr result_text \<Rightarrow>
                           let text = strip result_text
                           in case commit text phrase_complete (transcription s2) of
                                Inl e \<Rightarrow> Inl (e, s2)
                              | Inr lines \<Rightarrow>
                                  let (acc, out) = feed (transcript s2) text
                                  in Inr (s2\<lparr>transcription := lines, transcript := acc,
                                             stdout := stdout s2 @ out\<rparr>)))"

datatype event =
    Drain timestamp "byte list list"
      \<comment> \<open>a pass of the loop: \<open>utcnow()\<close> and the chunks in the queue, none when it is empty\<close>
  | Interrupt
      \<comment> \<open>the interrupt signal arriving while the loop is outside the recogniser (it idles in
          \<open>sleep\<close>): \<open>KeyboardInterrupt\<close> is raised at the start of a pass\<close>

datatype outcome =
    Looping state \<comment> \<open>the events are used up and the loop goes on\<close>
  | Broke state
      \<comment> \<open>\<open>except KeyboardInterrupt: break\<close>; the \<open>try\<close> holds the whole body of the pass\<close>
  | Raised exn state \<comment> \<open>any other exception leaves the loop and \<open>main\<close>\<close>

fun loop :: "int \<Rightarrow> recognizer option \<Rightarrow> event list \<Rightarrow> state \<Rightarrow> outcome" where
  "loop phrase_timeout audio_model [] s = Looping s"
| "loop phrase_timeout audio_model (Interrupt # evs) s = Broke s"
| "loop phrase_timeout audio_model (Drain now queue # evs) s =
     (case iteration phrase_timeout audio_model now queue s of
        Inl (e, s') \<Rightarrow> if e = KeyboardInterrupt then Broke s' else Raised e s'
      | Inr s' \<Rightarrow> loop phrase_timeout audio_model evs s')"

section \<open>Set-up and session end\<close>

datatype model_choice = Small | Medium | Large
  \<comment> \<open>\<open>--model\<close>, which argparse restricts to the keys of \<open>MODEL_CHOICES\<close>\<close>

fun MODEL_CHOICES :: "model_choice \<Rightarrow> string" where
  "MODEL_CHOICES Small = ''distil-whisper/distil-small.en''"
| "MODEL_CHOICES Medium = ''distil-whisper/distil-medium.en''"
| "MODEL_CHOICES Large = ''distil-whisper/distil-large-v3''"

type_synonym loader = "string \<Rightarrow> bool \<Rightarrow> string + recognizer"
  \<comment> \<open>the body of the \<open>try\<close> of \<open>load_model\<close> (torch and transformers): the pipeline, or
      the text of the exception raised\<close>

definition load_model :: "loader \<Rightarrow> string \<Rightarrow> bool \<Rightarrow> message list \<times> recognizer option" where
  \<comment> \<open>what is printed, and the value returned\<close>
  "load_model from_pretrained model_name use_cpu =
     (case from_pretrained model_name use_cpu of
        Inr pipe \<Rightarrow> ([], Some pipe)
      | Inl e \<Rightarrow> ([Line (''Error loading model '' @ model_name @ '': '' @ e)], None))"

definition save_transcripts :: "string list \<Rightarrow> string" where
  \<comment> \<open>the content written to the fresh timestamped file\<close>
  "save_transcripts transcripts = join [CHR 0x0A] transcripts"

definition iter_str :: "string \<Rightarrow> string list" where
  \<comment> \<open>a \<open>str\<close> passed where an iterable of strings is expected: its characters\<close>
  "iter_str s = map (\<lambda>c. [c]) s"

datatype exit_status = Returned | Uncaught exn | Unfinished

record session =
  console :: "message list"
  saved_file :: "string option"
  status :: exit_status

definition initial :: "message list \<Rightarrow> state" where
  \<comment> \<open>the variables of \<open>main\<close> when the loop starts\<close>
  "initial printed =
     \<lparr>phrase_time = None, transcription = [[]], transcript = [],
      stdout = printed, calls = []\<rparr>"

definition finish :: "outcome \<Rightarrow> session" where
  \<comment> \<open>lines 243 to 246 run after \<open>break\<close> only; \<open>save_transcripts\<close> is given the string
      \<open>transcript\<close>\<close>
  "finish r =
     (case r of
        Broke s \<Rightarrow>
          \<lparr>console = stdout s @ [Line ''transcription:''] @ map Line (transcription s),
           saved_file = Some (save_transcripts (iter_str (transcript s))),
           status = Returned\<rparr>
      | Raised e s \<Rightarrow> \<lparr>console = stdout s, saved_file = None, status = Uncaught e\<rparr>
      | Looping s \<Rightarrow> \<lparr>console = stdout s, saved_file = None, status = Unfinished\<rparr>)"

definition main :: "loader \<Rightarrow> model_choice \<Rightarrow> int \<Rightarrow> event list \<Rightarrow> session" where
  \<comment> \<open>\<open>main\<close> from line 160, the microphone found: \<open>--use_cpu\<close> is always True\<close>
  "main from_pretrained model_arg phrase_timeout evs =
     (let model = MODEL_CHOICES model_arg;
          (printed, audio_model) = load_model from_pretrained model True
      in finish (loop phrase_timeout audio_model evs (initial (printed @ [Ready]))))"

section \<open>Notions of the specification\<close>

fun commits :: "(string \<times> bool) list \<Rightarrow> string list \<Rightarrow> exn + string list" where
  \<comment> \<open>a sequence of \<open>commit\<close> calls, each with its text and its \<open>phrase_complete\<close>\<close>
  "commits [] lines = Inr lines"
| "commits ((text, phrase_complete) # rest) lines =
     (case commit text phrase_complete lines of
        Inl e \<Rightarrow> Inl e
      | Inr lines' \<Rightarrow> commits rest lines')"

fun contains :: "string \<Rightarrow> string \<Rightarrow> bool" where
  \<comment> \<open>\<open>p in s\<close>: the text \<open>s\<close> contains the token \<open>p\<close>\<close>
  "contains p [] = (p = [])"
| "contains p (c # cs) = (consume p (c # cs) \<noteq> None \<or> contains p cs)"

definition no_closing_token :: "string \<Rightarrow> bool" where
  \<comment> \<open>neither "thanks" nor "thank you" occurs\<close>
  "no_closing_token s = (\<not> contains ''thanks'' s \<and> \<not> contains ''thank you'' s)"

definition startswith :: "string \<Rightarrow> string \<Rightarrow> bool" where
  \<comment> \<open>\<open>s.startswith(p)\<close>\<close>
  "startswith s p = (consume p s \<noteq> None)"

definition endswith :: "string \<Rightarrow> string \<Rightarrow> bool" where
  \<comment> \<open>\<open>s.endswith(p)\<close>\<close>
  "endswith s p = startswith (rev s) (rev p)"

definition completes_closing_token :: "string \<Rightarrow> string \<Rightarrow> bool" where
  \<comment> \<open>the accumulated text ends with the first \<open>n\<close> characters of a closing token, and the new
      text starts with the rest of it, with some characters on each side\<close>
  "completes_closing_token acc text =
     list_ex (\<lambda>c. list_ex (\<lambda>n. endswith acc (take n c) \<and> startswith text (drop n c))
                     [1 ..< length c])
       [''thanks'', ''thank you'']"

fun gap_flags :: "int \<Rightarrow> timestamp option \<Rightarrow> timestamp list \<Rightarrow> bool list" where
  \<comment> \<open>P1 over the times of successive non-empty drains: a boundary where the gap since the
      drain before exceeds the timeout, \<open>prev\<close> being the time of the drain before the first\<close>
  "gap_flags timeout prev [] = []"
| "gap_flags timeout prev (t # ts) =
     (case prev of None \<Rightarrow> False | Some p \<Rightarrow> t - p > timeout) # gap_flags timeout (Some t) ts"

definition int16_le :: "byte \<Rightarrow> byte \<Rightarrow> int" where
  \<comment> \<open>two bytes, low byte first, read as a signed 16-bit sample\<close>
  "int16_le lo hi =
     (let u = int (unat lo) + 256 * int (unat hi)
      in if u < 32768 then u else u - 65536)"

definition pcm_samples :: "byte list \<Rightarrow> real list" where
  \<comment> \<open>the normalisation contract: sample \<open>i\<close> is bytes \<open>2i\<close> and \<open>2i+1\<close> over 32768\<close>
  "pcm_samples bs =
     map (\<lambda>i. real_of_int (int16_le (bs ! (2 * i)) (bs ! (2 * i + 1))) / 32768)
       [0 ..< length bs div 2]"

definition is_float32 :: "real \<Rightarrow> bool" where
  \<comment> \<open>the finite values of IEEE binary32: a significand of 24 bits and an exponent in range;
      an operation whose exact result is one of them does not round\<close>
  "is_float32 x =
     (\<exists>m e :: int. \<bar>m\<bar> < 2 ^ 24 \<and> - 149 \<le> e \<and> e \<le> 104 \<and> x = real_of_int m * 2 powr real_of_int e)"

section \<open>The command extractor\<close>

subsection \<open>A match needs a closing token\<close>

lemma consume_Some_iff: "consume p s = Some r \<longleftrightarrow> s = p @ r"
  by (induction p s rule: consume.induct) auto

lemma contains_iff: "contains p s \<longleftrightarrow> (\<exists>a b. s = a @ p @ b)"
proof (induction s)
  case Nil
  show ?case by auto
next
  case (Cons c cs)
  show ?case
  proof
    assume "contains p (c # cs)"
    then consider r where "consume p (c # cs) = Some r" | "contains p cs" by auto
    then show "\<exists>a b. c # cs = a @ p @ b"
    proof cases
      case 1
      then have "c # cs = [] @ p @ r" by (simp add: consume_Some_iff)
      then show ?thesis by blast
    next
      case 2
      then obtain a b where "cs = a @ p @ b" using Cons.IH by blast
      then have "c # cs = (c # a) @ p @ b" by simp
      then show ?thesis by blast
    qed
  next
    assume "\<exists>a b. c # cs = a @ p @ b"
    then obtain a b where ab: "c # cs = a @ p @ b" by blast
    show "contains p (c # cs)"
    proof (cases a)
      case Nil
      with ab have "consume p (c # cs) = Some b" by (simp add: consume_Some_iff)
      then show ?thesis by simp
    next
      case (Cons x a')
      with ab have "cs = a' @ p @ b" by simp
      then have "contains p cs" using Cons.IH by blast
      then show ?thesis by simp
    qed
  qed
qed

lemma contains_snoc:
  assumes "contains p (s @ [c])" "p \<noteq> []" "last p \<noteq> c"
  shows "contains p s"
proof -
  from assms(1) obtain a b where ab: "s @ [c] = a @ p @ b" by (auto simp: contains_iff)
  show ?thesis
  proof (cases b rule: rev_cases)
    case Nil
    with ab have "s @ [c] = (a @ butlast p) @ [last p]" using assms(2) by simp
    then have "c = last p" by (metis last_snoc)
    with assms(3) show ?thesis by simp
  next
    case (snoc b' x)
    with ab have "s @ [c] = (a @ p @ b') @ [x]" by simp
    then have "s = a @ p @ b'" by (metis butlast_snoc)
    then show ?thesis by (auto simp: contains_iff)
  qed
qed

lemma contains_append: "contains p r \<Longrightarrow> contains p (a @ r)"
  by (auto simp: contains_iff) (metis append.assoc)

lemma consume_contains: "consume p s = Some r \<Longrightarrow> contains p s"
  unfolding contains_iff consume_Some_iff by (metis append_Nil)

lemma closing_contains:
  assumes "closing s = Some g"
  shows "contains ''thanks'' s \<or> contains ''thank you'' s"
proof -
  from assms obtain r where r: "consume ''thank'' s = Some r"
    by (auto simp: closing_def split: option.splits)
  then have s: "s = ''thank'' @ r" by (simp only: consume_Some_iff)
  show ?thesis
  proof (cases "consume ''s'' r")
    case (Some r')
    then have "r = ''s'' @ r'" by (simp only: consume_Some_iff)
    with s have "consume ''thanks'' s = Some r'" by (simp add: consume_Some_iff)
    then show ?thesis by (blast dest: consume_contains)
  next
    case None
    with assms r obtain r' where "consume '' you'' r = Some r'"
      by (auto simp: closing_def split: option.splits)
    then have "r = '' you'' @ r'" by (simp only: consume_Some_iff)
    with s have "consume ''thank you'' s = Some r'" by (simp add: consume_Some_iff)
    then show ?thesis by (blast dest: consume_contains)
  qed
qed

lemma contains_Cons: "contains p cs \<Longrightarrow> contains p (c # cs)"
  by simp

lemma middle_contains:
  "middle s = Some g \<Longrightarrow> contains ''thanks'' s \<or> contains ''thank you'' s"
proof (induction s arbitrary: g)
  case Nil
  then show ?case by (auto dest: closing_contains)
next
  case (Cons c cs)
  show ?case
  proof (cases "closing (c # cs)")
    case (Some g3)
    then show ?thesis by (rule closing_contains)
  next
    case None
    with Cons.prems obtain g' where "middle cs = Some g'"
      by (auto split: if_splits option.splits)
    then have "contains ''thanks'' cs \<or> contains ''thank you'' cs" by (rule Cons.IH)
    then show ?thesis by auto
  qed
qed

lemma consume_Some_iff': "Some r = consume p s \<longleftrightarrow> s = p @ r"
  using consume_Some_iff [of p s r] by auto

lemma literal_suffix: "(g', r') \<in> set (literal x (g, r)) \<Longrightarrow> \<exists>a. r = a @ r'"
  by (auto simp: literal_def consume_Some_iff' split: option.splits)

lemma optional_suffix: "(g', r') \<in> set (optional x r) \<Longrightarrow> \<exists>a. r = a @ r'"
  by (auto simp: optional_def consume_Some_iff' split: option.splits)

lemma wake_suffix:
  assumes "(g, r) \<in> set (wake s)"
  shows "\<exists>a. s = a @ r"
proof -
  from assms obtain g1 r1 g2 r2 g3 r3 n where
    1: "(g1, r1) \<in> set (optional ''h'' s)" and
    2: "(g2, r2) \<in> set (literal ''an'' (g1, r1))" and
    3: "(n, r3) \<in> set (optional ''n'' r2)" and
    4: "(g, r) \<in> set (literal ''a'' (g3, r3))"
    unfolding wake_def by fastforce
  from 1 obtain a1 where "s = a1 @ r1" by (blast dest: optional_suffix)
  moreover from 2 obtain a2 where "r1 = a2 @ r2" by (blast dest: literal_suffix)
  moreover from 3 obtain a3 where "r2 = a3 @ r3" by (blast dest: optional_suffix)
  moreover from 4 obtain a4 where "r3 = a4 @ r" by (blast dest: literal_suffix)
  ultimately have "s = (a1 @ a2 @ a3 @ a4) @ r" by simp
  then show ?thesis by blast
qed

lemma first_match_Some:
  "first_match alts = Some g \<Longrightarrow> \<exists>g1 r m. (g1, r) \<in> set alts \<and> middle r = Some m"
  by (induction alts rule: first_match.induct) (auto split: option.splits)

lemma match_at_contains:
  assumes "match_at s = Some g"
  shows "contains ''thanks'' s \<or> contains ''thank you'' s"
proof -
  from assms obtain g1 r m where in_wake: "(g1, r) \<in> set (wake s)" and m: "middle r = Some m"
    unfolding match_at_def by (blast dest: first_match_Some)
  from in_wake obtain a where "s = a @ r" by (blast dest: wake_suffix)
  with middle_contains [OF m] show ?thesis by (auto intro: contains_append)
qed

lemma search_contains:
  "search s = Some g \<Longrightarrow> contains ''thanks'' s \<or> contains ''thank you'' s"
proof (induction s)
  case Nil
  then show ?case by (auto dest: match_at_contains)
next
  case (Cons c cs)
  show ?case
  proof (cases "match_at (c # cs)")
    case (Some g')
    then show ?thesis by (rule match_at_contains)
  next
    case None
    with Cons.prems have "search cs = Some g" by simp
    then have "contains ''thanks'' cs \<or> contains ''thank you'' cs" by (rule Cons.IH)
    then show ?thesis by auto
  qed
qed

lemma search_None: "no_closing_token s \<Longrightarrow> search s = None"
  unfolding no_closing_token_def by (cases "search s") (auto dest: search_contains)

lemma lower_append: "lower (a @ b) = lower a @ lower b"
  by (simp add: lower_def)

lemma lower_space: "lower '' '' = '' ''"
  by (simp add: lower_def lower_char_def)

lemma no_closing_token_space:
  assumes "no_closing_token (lower text)"
  shows "no_closing_token (lower (text @ '' ''))"
proof -
  have "\<not> contains ''thanks'' (lower text @ '' '')"
    using assms contains_snoc [of "''thanks''" "lower text" "CHR '' ''"]
    by (auto simp: no_closing_token_def)
  moreover have "\<not> contains ''thank you'' (lower text @ '' '')"
    using assms contains_snoc [of "''thank you''" "lower text" "CHR '' ''"]
    by (auto simp: no_closing_token_def)
  ultimately show ?thesis by (simp add: no_closing_token_def lower_append lower_space)
qed

lemmas string_defs = strip_def isspace_def lower_def lower_char_def sub_punct_def
lemmas regex_defs = get_cmd_def match_at_def wake_def optional_def literal_def closing_def

subsection \<open>The matches of the pattern\<close>

lemma wake_word:
  "w \<in> {''ana'', ''anna'', ''hana'', ''hanna''} \<Longrightarrow> wake (w @ r) = [(w, r)]"
  by (auto simp: wake_def optional_def literal_def)

lemma wake_sound:
  assumes "(g, r) \<in> set (wake s)"
  shows "s = g @ r \<and> g \<in> {''ana'', ''anna'', ''hana'', ''hanna''}"
proof -
  from assms obtain g1 r1 g2 r2 n r3 g3 where
    1: "(g1, r1) \<in> set (optional ''h'' s)" and
    2: "(g2, r2) \<in> set (literal ''an'' (g1, r1))" and
    3: "(n, r3) \<in> set (optional ''n'' r2)" and
    4: "(g, r) \<in> set (literal ''a'' (g2 @ n, r3))"
    unfolding wake_def by fastforce
  from 1 have a: "s = g1 @ r1 \<and> (g1 = ''h'' \<or> g1 = [])"
    by (auto simp: optional_def consume_Some_iff' split: option.splits)
  from 2 have b: "r1 = ''an'' @ r2 \<and> g2 = g1 @ ''an''"
    by (auto simp: literal_def consume_Some_iff' split: option.splits)
  from 3 have c: "r2 = n @ r3 \<and> (n = ''n'' \<or> n = [])"
    by (auto simp: optional_def consume_Some_iff' split: option.splits)
  from 4 have d: "r3 = ''a'' @ r \<and> g = (g2 @ n) @ ''a''"
    by (auto simp: literal_def consume_Some_iff' split: option.splits)
  from a b c d show ?thesis by auto
qed

lemma closing_sound:
  "closing s = Some g \<Longrightarrow> g \<in> {''thanks'', ''thank you''} \<and> (\<exists>r. s = g @ r)"
  by (auto simp: closing_def consume_Some_iff split: option.splits)

lemma closing_complete:
  "c \<in> {''thanks'', ''thank you''} \<Longrightarrow> closing (c @ r) \<noteq> None"
  by (auto simp: closing_def)

lemma middle_sound:
  "middle s = Some (m, g) \<Longrightarrow>
     CHR 0x0A \<notin> set m \<and> g \<in> {''thanks'', ''thank you''} \<and> (\<exists>r. s = m @ g @ r)"
proof (induction s arbitrary: m)
  case Nil
  then show ?case by (auto dest: closing_sound)
next
  case (Cons x xs)
  show ?case
  proof (cases "closing (x # xs)")
    case (Some g3)
    with Cons.prems have "m = []" "g = g3" by simp_all
    with closing_sound [OF Some] show ?thesis by simp
  next
    case None
    with Cons.prems obtain m' where nl: "x \<noteq> CHR 0x0A" and m': "middle xs = Some (m', g)" and m: "m = x # m'"
      by (auto split: if_splits option.splits)
    from Cons.IH [OF m'] nl m show ?thesis by auto
  qed
qed

lemma closing_middle: "closing s \<noteq> None \<Longrightarrow> middle s \<noteq> None"
  by (cases s) auto

lemma middle_complete:
  "CHR 0x0A \<notin> set m \<Longrightarrow> closing s \<noteq> None \<Longrightarrow> middle (m @ s) \<noteq> None"
proof (induction m)
  case Nil
  then show ?case by (simp add: closing_middle)
next
  case (Cons x m)
  then have "middle (m @ s) \<noteq> None" and "x \<noteq> CHR 0x0A" by auto
  then show ?case by (auto split: option.splits)
qed

lemma first_match_sound:
  "first_match alts = Some (g1, g2, g3) \<Longrightarrow> \<exists>r. (g1, r) \<in> set alts \<and> middle r = Some (g2, g3)"
  by (induction alts rule: first_match.induct) (auto split: option.splits)

lemma match_at_sound:
  assumes "match_at s = Some (g1, g2, g3)"
  shows "\<exists>r. s = g1 @ g2 @ g3 @ r \<and> g1 \<in> {''ana'', ''anna'', ''hana'', ''hanna''}
             \<and> CHR 0x0A \<notin> set g2 \<and> g3 \<in> {''thanks'', ''thank you''}"
proof -
  from assms obtain r where w: "(g1, r) \<in> set (wake s)" and m: "middle r = Some (g2, g3)"
    unfolding match_at_def by (blast dest: first_match_sound)
  from wake_sound [OF w] middle_sound [OF m] show ?thesis by auto
qed

lemma match_at_complete:
  assumes "w \<in> {''ana'', ''anna'', ''hana'', ''hanna''}" and "CHR 0x0A \<notin> set m"
    and "c \<in> {''thanks'', ''thank you''}"
  shows "match_at (w @ m @ c @ r) \<noteq> None"
proof -
  have "middle (m @ c @ r) \<noteq> None"
    using assms(2,3) by (intro middle_complete closing_complete)
  then show ?thesis
    by (auto simp: match_at_def wake_word [OF assms(1)] split: option.splits)
qed

lemma search_append: "match_at s \<noteq> None \<Longrightarrow> search (p @ s) \<noteq> None"
proof (induction p)
  case Nil
  then show ?case by (cases s) (auto split: option.splits)
next
  case (Cons x p)
  then show ?case by (auto split: option.splits)
qed

lemma search_sound:
  "search s = Some (g1, g2, g3) \<Longrightarrow> \<exists>p. match_at (drop p s) = Some (g1, g2, g3) \<and> p \<le> length s"
proof (induction s)
  case Nil
  then show ?case by auto
next
  case (Cons x xs)
  show ?case
  proof (cases "match_at (x # xs)")
    case (Some g)
    with Cons.prems have "match_at (drop 0 (x # xs)) = Some (g1, g2, g3)" by simp
    then show ?thesis by blast
  next
    case None
    with Cons.prems have "search xs = Some (g1, g2, g3)" by simp
    from Cons.IH [OF this] obtain p where "match_at (drop p xs) = Some (g1, g2, g3)" "p \<le> length xs"
      by blast
    then have "match_at (drop (Suc p) (x # xs)) = Some (g1, g2, g3) \<and> Suc p \<le> length (x # xs)"
      by simp
    then show ?thesis by blast
  qed
qed

lemma search_iff:
  "search s \<noteq> None \<longleftrightarrow>
     (\<exists>p w m c r. s = p @ w @ m @ c @ r \<and> w \<in> {''ana'', ''anna'', ''hana'', ''hanna''}
        \<and> CHR 0x0A \<notin> set m \<and> c \<in> {''thanks'', ''thank you''})"
proof
  assume "search s \<noteq> None"
  then obtain g1 g2 g3 where "search s = Some (g1, g2, g3)" by auto
  then obtain p where m: "match_at (drop p s) = Some (g1, g2, g3)"
    by (blast dest: search_sound)
  from match_at_sound [OF m] obtain r where
    "drop p s = g1 @ g2 @ g3 @ r" and rest: "g1 \<in> {''ana'', ''anna'', ''hana'', ''hanna''}"
      "CHR 0x0A \<notin> set g2" "g3 \<in> {''thanks'', ''thank you''}"
    by blast
  then have "s = take p s @ g1 @ g2 @ g3 @ r" by (metis append_take_drop_id)
  with rest show "\<exists>p w m c r. s = p @ w @ m @ c @ r \<and> w \<in> {''ana'', ''anna'', ''hana'', ''hanna''}
        \<and> CHR 0x0A \<notin> set m \<and> c \<in> {''thanks'', ''thank you''}"
    by blast
next
  assume "\<exists>p w m c r. s = p @ w @ m @ c @ r \<and> w \<in> {''ana'', ''anna'', ''hana'', ''hanna''}
        \<and> CHR 0x0A \<notin> set m \<and> c \<in> {''thanks'', ''thank you''}"
  then obtain p w m c r where s: "s = p @ (w @ m @ c @ r)"
    and w: "w \<in> {''ana'', ''anna'', ''hana'', ''hanna''}"
    and m: "CHR 0x0A \<notin> set m" and c: "c \<in> {''thanks'', ''thank you''}" by blast
  have "match_at (w @ m @ c @ r) \<noteq> None" using w m c by (rule match_at_complete)
  then have "search (p @ (w @ m @ c @ r)) \<noteq> None" by (intro search_append)
  with s show "search s \<noteq> None" by simp
qed

lemma consume_snoc:
  assumes "consume p (s @ [x]) \<noteq> None" "p \<noteq> []" "last p \<noteq> x"
  shows "consume p s \<noteq> None"
proof -
  from assms(1) obtain r where r: "s @ [x] = p @ r" by (auto simp: consume_Some_iff)
  show ?thesis
  proof (cases r rule: rev_cases)
    case Nil
    with r have "s @ [x] = butlast p @ [last p]" using assms(2) by simp
    then have "x = last p" by (metis last_snoc)
    with assms(3) show ?thesis by simp
  next
    case (snoc r' y)
    with r have "s @ [x] = (p @ r') @ [y]" by simp
    then have "s = p @ r'" by (metis butlast_snoc)
    then show ?thesis by (simp add: consume_Some_iff)
  qed
qed

lemma completes_closing_tokenI:
  assumes "c \<in> {''thanks'', ''thank you''}" and "u @ v = c" and "u \<noteq> []" and "v \<noteq> []"
    and "A = x @ u" and "T = v @ r"
  shows "completes_closing_token A T"
proof -
  let ?n = "length u"
  have n: "?n \<in> set [1 ..< length c]"
    using assms(2,3,4) by (cases u; cases v) auto
  have "take ?n c = u" "drop ?n c = v" using assms(2) by auto
  moreover have "endswith A u"
    by (simp add: endswith_def startswith_def assms(5) consume_Some_iff)
  moreover have "startswith T v"
    by (simp add: startswith_def assms(6) consume_Some_iff)
  ultimately have "\<exists>n \<in> set [1 ..< length c]. endswith A (take n c) \<and> startswith T (drop n c)"
    using n by metis
  with assms(1) show ?thesis
    unfolding completes_closing_token_def list_ex_iff by auto
qed

lemma startswith_snoc:
  assumes "T @ '' '' = v @ r" and "v \<noteq> []" and "last v \<noteq> CHR '' ''"
  shows "\<exists>r'. T = v @ r'"
proof -
  from assms(1) have "consume v (T @ [CHR '' '']) \<noteq> None" by (simp add: consume_Some_iff)
  from consume_snoc [OF this assms(2,3)] show ?thesis by (auto simp: consume_Some_iff)
qed

lemma closing_suffix_last:
  assumes "c \<in> {''thanks'', ''thank you''}" and "u @ v = c" and "v \<noteq> []"
  shows "last v \<noteq> CHR '' ''"
proof -
  from assms(2,3) have "last v = last c" by (metis last_appendR)
  with assms(1) show ?thesis by auto
qed

lemma feed_no_match:
  assumes acc: "search (lower acc) = None"
    and tok: "no_closing_token (lower t)"
    and junction: "\<not> completes_closing_token (lower acc) (lower t)"
  shows "search (lower (acc @ t @ '' '')) = None"
proof (rule ccontr)
  let ?A = "lower acc" and ?T = "lower t @ '' ''"
  assume "search (lower (acc @ t @ '' '')) \<noteq> None"
  then have "search (?A @ ?T) \<noteq> None" by (simp add: lower_append lower_space)
  then have "\<exists>p w m c r. ?A @ ?T = p @ w @ m @ c @ r
      \<and> w \<in> {''ana'', ''anna'', ''hana'', ''hanna''}
      \<and> CHR 0x0A \<notin> set m \<and> c \<in> {''thanks'', ''thank you''}"
    by (rule search_iff [THEN iffD1])
  then obtain p w m c r where e0: "?A @ ?T = p @ w @ m @ c @ r"
    and w: "w \<in> {''ana'', ''anna'', ''hana'', ''hanna''}"
    and m: "CHR 0x0A \<notin> set m" and c: "c \<in> {''thanks'', ''thank you''}"
    by blast
  from e0 have eq: "?A @ ?T = (p @ w @ m) @ (c @ r)" by simp
  have found: "search ?A \<noteq> None" if "?A = p @ w @ m @ c @ vs" for vs
    using that w m c by (intro search_iff [THEN iffD2]) blast
  from tok have "no_closing_token (lower (t @ '' ''))" by (rule no_closing_token_space)
  then have noT: "\<not> contains c ?T"
    using c by (auto simp: no_closing_token_def lower_append lower_space)
  from eq consider
      (left) us where "?A = (p @ w @ m) @ us" "us @ ?T = c @ r"
    | (right) us where "?A @ us = p @ w @ m" "?T = us @ (c @ r)"
    unfolding append_eq_append_conv2 by blast
  then show False
  proof cases
    case right
    then have "contains c ?T" unfolding contains_iff by blast
    with noT show False by simp
  next
    case left
    from left(2) consider
        (inside) vs where "us = c @ vs"
      | (across) vs where "us @ vs = c" "?T = vs @ r"
      unfolding append_eq_append_conv2 by blast
    then show False
    proof cases
      case inside
      with left(1) have "?A = p @ w @ m @ c @ vs" by simp
      then have "search ?A \<noteq> None" by (rule found)
      with acc show False by simp
    next
      case across
      show False
      proof (cases "vs = []")
        case True
        with across(1) left(1) have "?A = p @ w @ m @ c @ []" by simp
        then have "search ?A \<noteq> None" by (rule found)
        with acc show False by simp
      next
        case vs: False
        show False
        proof (cases "us = []")
          case True
          with across have "?T = [] @ c @ r" by simp
          then have "contains c ?T" unfolding contains_iff by blast
          with noT show False by simp
        next
          case us: False
          from closing_suffix_last [OF c across(1) vs] have "last vs \<noteq> CHR '' ''" .
          from startswith_snoc [OF across(2) vs this] obtain r' where lt: "lower t = vs @ r'" ..
          have "completes_closing_token ?A (lower t)"
            by (rule completes_closing_tokenI [OF c across(1) us vs left(1) lt])
          with junction show False by simp
        qed
      qed
    qed
  qed
qed

lemma search_Nil: "search [] = None"
  by (simp add: match_at_def wake_def optional_def literal_def)

lemma feed_accumulator_no_match: "search (lower (fst (feed acc t))) = None"
proof (cases "search (lower (acc @ t @ '' ''))")
  case None
  then have "fst (feed acc t) = acc @ t @ '' ''" by (simp add: feed_def)
  with None show ?thesis by (simp only:)
next
  case (Some g)
  then have "fst (feed acc t) = []" by (simp add: feed_def)
  then have "lower (fst (feed acc t)) = []" by (simp add: lower_def)
  then show ?thesis by (simp only: search_Nil)
qed

lemmas junction_defs = completes_closing_token_def endswith_def startswith_def

subsection \<open>Extraction\<close>

text \<open>
  Claim C7, as stated, at a closing token split over two feeds. "hanna thank" is fed first
  (no match, the accumulator becomes "hanna thank "), then "you": the text fed holds no
  closing token, and yet the accumulator now matches, with the empty payload.
\<close>

theorem closing_token_split_counterexample:
  "no_closing_token (lower ''you'')
   \<and> feed [] ''hanna thank'' = (''hanna thank '', [])
   \<and> feed ''hanna thank '' ''you'' = ([], [UserSays (Some [])])"
  by (simp add: feed_def no_closing_token_def string_defs regex_defs)

text \<open>
  Claim C7, amended. Fed to the extractor with an empty accumulator, the text
  "hey hanna, please open the door, thanks" gives the payload "please open the door".
  Feeding a text that holds no closing token (in lower case) gives no match, and the
  accumulator becomes the old one, the text and a space, provided the accumulator holds no
  match (it never does after a feed) and the text does not complete a closing token whose
  beginning ends the accumulator ("thank " then "you"). In particular this is so when the
  accumulator is empty, and whenever the accumulator with the new text holds no closing
  token at all.
\<close>

theorem command_extraction:
  "feed [] ''hey hanna, please open the door, thanks'' = ([], [UserSays (Some ''please open the door'')])
   \<and> (search (lower acc) = None \<longrightarrow> no_closing_token (lower t) \<longrightarrow>
        \<not> completes_closing_token (lower acc) (lower t) \<longrightarrow>
        feed acc t = (acc @ t @ '' '', []))
   \<and> search (lower (fst (feed acc t))) = None
   \<and> (no_closing_token (lower (acc @ t @ '' '')) \<longrightarrow> feed acc t = (acc @ t @ '' '', []))
   \<and> (no_closing_token (lower t) \<longrightarrow> feed [] t = (t @ '' '', []))"
proof (intro conjI impI)
  show "feed [] ''hey hanna, please open the door, thanks'' = ([], [UserSays (Some ''please open the door'')])"
    by (simp add: feed_def string_defs regex_defs)
next
  assume "search (lower acc) = None" "no_closing_token (lower t)"
    "\<not> completes_closing_token (lower acc) (lower t)"
  then have "search (lower (acc @ t @ '' '')) = None" by (rule feed_no_match)
  then show "feed acc t = (acc @ t @ '' '', [])" by (simp add: feed_def)
next
  show "search (lower (fst (feed acc t))) = None" by (rule feed_accumulator_no_match)
next
  assume "no_closing_token (lower (acc @ t @ '' ''))"
  then have "search (lower (acc @ t @ '' '')) = None" by (rule search_None)
  then show "feed acc t = (acc @ t @ '' '', [])" by (simp add: feed_def)
next
  assume "no_closing_token (lower t)"
  then have "no_closing_token (lower (t @ '' ''))" by (rule no_closing_token_space)
  then have "search (lower (t @ '' '')) = None" by (rule search_None)
  then show "feed [] t = (t @ '' '', [])" by (simp add: feed_def)
qed

theorem command_extraction_witness:
  "search (lower ''thanks for that '') = None
   \<and> no_closing_token (lower ''Hanna, open the door'')
   \<and> \<not> completes_closing_token (lower ''thanks for that '') (lower ''Hanna, open the door'')
   \<and> feed ''thanks for that '' ''Hanna, open the door'' = (''thanks for that Hanna, open the door '', [])
   \<and> no_closing_token (lower (''hey hanna '' @ ''open the door'' @ '' ''))
   \<and> feed ''hey hanna '' ''open the door'' = (''hey hanna open the door '', [])
   \<and> feed [] ''Hanna, open the door'' = (''Hanna, open the door '', [])"
proof -
  have s: "search (lower ''thanks for that '') = None"
    by (simp add: string_defs regex_defs)
  have b: "no_closing_token (lower ''Hanna, open the door'')"
    by (simp add: no_closing_token_def string_defs)
  have j: "\<not> completes_closing_token (lower ''thanks for that '') (lower ''Hanna, open the door'')"
    by (simp add: junction_defs string_defs)
  have a: "no_closing_token (lower (''hey hanna '' @ ''open the door'' @ '' ''))"
    by (simp add: no_closing_token_def string_defs)
  from command_extraction [of "''thanks for that ''" "''Hanna, open the door''"] s b j
  have 1: "feed ''thanks for that '' ''Hanna, open the door'' = (''thanks for that Hanna, open the door '', [])"
    by simp
  from command_extraction [of "''hey hanna ''" "''open the door''"] a
  have 2: "feed ''hey hanna '' ''open the door'' = (''hey hanna open the door '', [])" by simp
  from command_extraction [of "[]" "''Hanna, open the door''"] b
  have 3: "feed [] ''Hanna, open the door'' = (''Hanna, open the door '', [])" by simp
  from s b j a 1 2 3 show ?thesis by simp
qed

text \<open>
  Claim C10. The wake group needs no leading "h" and no word boundary: in
  "i ate a banana thanks" it matches the "ana" of "banana", and the command "na" is emitted.
\<close>

theorem wake_inside_word:
  "search (lower ''i ate a banana thanks '') = Some (''ana'', ''na '', ''thanks'')
   \<and> feed [] ''i ate a banana thanks'' = ([], [UserSays (Some ''na'')])"
  by (simp add: feed_def string_defs regex_defs)

section \<open>The engine loop and the session\<close>

lemmas engine_defs = iteration_def segment_def commit_def feed_def decode_def astype_float32_def
  word_cat_eq
lemmas session_defs = main_def load_model_def finish_def initial_def save_transcripts_def
  iter_str_def

subsection \<open>The loop\<close>

lemma loop_append:
  "loop timeout m (pre @ evs) s =
     (case loop timeout m pre s of Looping s' \<Rightarrow> loop timeout m evs s' | r \<Rightarrow> r)"
proof (induction pre arbitrary: s)
  case Nil
  show ?case by simp
next
  case (Cons ev pre)
  show ?case
  proof (cases ev)
    case (Drain now q)
    then show ?thesis using Cons.IH by (simp split: sum.splits prod.splits)
  next
    case Interrupt
    then show ?thesis by simp
  qed
qed

lemma iteration_empty: "iteration timeout m now [] s = Inr s"
  by (simp add: iteration_def)

lemma iteration_Inr:
  assumes "iteration timeout (Some f) now q s = Inr s'" and "q \<noteq> []"
  obtains a r lines where
    "decode (concat q) = Inr a" and "f a = Inr r" and
    "commit (strip r) (fst (segment timeout (phrase_time s) now)) (transcription s) = Inr lines" and
    "s' = s\<lparr>phrase_time := Some now,
            calls := calls s @ [(fst (segment timeout (phrase_time s) now), a)],
            transcription := lines,
            transcript := fst (feed (transcript s) (strip r)),
            stdout := stdout s @ snd (feed (transcript s) (strip r))\<rparr>"
  using assms
  by (auto simp: iteration_def segment_def Let_def split: sum.splits prod.splits)

lemma iteration_no_model:
  assumes "q \<noteq> []"
  shows "iteration timeout None now q s =
           Inl (case decode (concat q) of Inl e \<Rightarrow> e | Inr a \<Rightarrow> TypeError,
                s\<lparr>phrase_time := Some now\<rparr>)"
  using assms by (simp add: iteration_def segment_def split: sum.splits)

lemma iteration_raises:
  assumes "q \<noteq> []" and "decode (concat q) = Inr a" and "f a = Inl e"
  shows "iteration timeout (Some f) now q s =
           Inl (e, s\<lparr>phrase_time := Some now,
                     calls := calls s @ [(fst (segment timeout (phrase_time s) now), a)]\<rparr>)"
  using assms by (simp add: iteration_def segment_def)

subsection \<open>The transcript assembler\<close>

text \<open>
  Claim C1, as stated, at the commits "a", "b", "c", "d" with the flags false, false, true,
  false from the transcript the session starts with: the transcript is "ab", "cd", and not
  "c", "d".
\<close>

theorem commit_replaces_counterexample:
  "commits [(''a'', False), (''b'', False), (''c'', True), (''d'', False)] (transcription (initial []))
     = Inr [''ab'', ''cd'']
   \<and> commits [(''a'', False), (''b'', False), (''c'', True), (''d'', False)] (transcription (initial []))
     \<noteq> Inr [''c'', ''d'']"
  by (simp add: commit_def initial_def)

text \<open>
  Claim C1, amended. A commit with \<open>phrase_complete\<close> false appends the new text to the
  open last line, with no separator, and a commit with \<open>phrase_complete\<close> true adds a line.
  Four texts committed with the flags false, false, true, false from the initial transcript
  give exactly two lines: the first is the first text followed by the second, the second is
  the third text followed by the fourth.
\<close>

theorem commit_appends:
  "commits [(t1, False), (t2, False), (t3, True), (t4, False)] (transcription (initial p))
     = Inr [t1 @ t2, t3 @ t4]
   \<and> commit t False (ls @ [l]) = Inr (ls @ [l @ t])
   \<and> commit t True ls = Inr (ls @ [t])"
  by (simp add: commit_def initial_def)

subsection \<open>Session end\<close>

text \<open>
  Claim C3 at a session of one drain, recognised as "hi", then the interrupt. The console
  shows the one transcript line "hi"; the file holds the characters of the accumulator
  "hi " with a line feed between them, not the transcript lines.
\<close>

theorem saved_file_is_the_accumulator:
  "main (\<lambda>name cpu. Inr (\<lambda>audio. Inr ''hi'')) Small 4000000 [Drain 0 [[1, 0]], Interrupt]
     = \<lparr>console = [Ready, Line ''transcription:'', Line ''hi''],
        saved_file = Some ''h\<newline>i\<newline> '',
        status = Returned\<rparr>"
  by (simp add: session_defs engine_defs string_defs regex_defs)

subsection \<open>A model that fails to load\<close>

text \<open>
  Claim C4 at a loader that raises. \<open>load_model\<close> prints the message and returns None,
  which \<open>main\<close> does not test: the readiness signal is printed and the loop is entered with
  no model. With an empty queue and then the interrupt, the session ends through the loop's
  own \<open>break\<close>; with an empty queue and then a chunk of audio, the missing model is called
  and TypeError leaves \<open>main\<close>. Neither run aborts before the loop.
\<close>

theorem failed_load_reaches_loop:
  "main (\<lambda>name cpu. Inl ''no such file'') Small 4000000 [Drain 0 [], Interrupt]
     = \<lparr>console = [Line ''Error loading model distil-whisper/distil-small.en: no such file'',
                   Ready, Line ''transcription:'', Line ''''],
        saved_file = Some '''',
        status = Returned\<rparr>
   \<and> main (\<lambda>name cpu. Inl ''no such file'') Small 4000000 [Drain 0 [], Drain 7 [[1, 0]]]
     = \<lparr>console = [Line ''Error loading model distil-whisper/distil-small.en: no such file'',
                   Ready],
        saved_file = None,
        status = Uncaught TypeError\<rparr>"
  by (simp add: session_defs engine_defs)

subsection \<open>A recognition that fails\<close>

lemma interrupt_inside_call:
  assumes "from_pretrained (MODEL_CHOICES m) True = Inr f"
    and "loop timeout (Some f) pre (initial [Ready]) = Looping s"
    and "q \<noteq> []" and "decode (concat q) = Inr a" and "f a = Inl KeyboardInterrupt"
  shows "main from_pretrained m timeout (pre @ Drain now q # rest) =
           finish (Broke (s\<lparr>phrase_time := Some now,
                            calls := calls s @ [(fst (segment timeout (phrase_time s) now), a)]\<rparr>))"
  using assms
  by (simp add: main_def load_model_def loop_append iteration_raises)

text \<open>
  Claim C5, as stated, at a recogniser that raises an error on the second drain: the
  exception leaves \<open>main\<close>, and no file is written.
\<close>

theorem recognition_failure_counterexample:
  "main (\<lambda>name cpu. Inr (\<lambda>audio. if length audio = 1 then Inr ''hi'' else Inl (External ''boom'')))
      Small 4000000 [Drain 0 [[1, 0]], Drain 1000000 [[3, 0], [5, 0]], Interrupt]
     = \<lparr>console = [Ready], saved_file = None, status = Uncaught (External ''boom'')\<rparr>"
  by (simp add: session_defs engine_defs string_defs regex_defs)

text \<open>
  Claim C5, amended. When the recogniser raises, on a drain, an exception other than
  KeyboardInterrupt, the exception leaves the loop and \<open>main\<close>; the lines after the loop do
  not run, so nothing is printed after the passes before and no transcript file is written.
\<close>

theorem recognition_failure_not_persisted:
  assumes "from_pretrained (MODEL_CHOICES m) True = Inr f"
    and "loop timeout (Some f) pre (initial [Ready]) = Looping s"
    and "q \<noteq> []" and "decode (concat q) = Inr a" and "f a = Inl e"
    and "e \<noteq> KeyboardInterrupt"
  shows "main from_pretrained m timeout (pre @ Drain now q # rest) =
           \<lparr>console = stdout s, saved_file = None, status = Uncaught e\<rparr>"
  using assms
  by (simp add: main_def load_model_def loop_append iteration_raises finish_def)

theorem recognition_failure_not_persisted_witness:
  "loop 4000000 (Some (\<lambda>audio. if length audio = 1 then Inr ''hi'' else Inl (External ''boom'')))
       [Drain 0 [[1, 0]]] (initial [Ready])
     = Looping \<lparr>phrase_time = Some 0, transcription = [''hi''], transcript = ''hi '',
                stdout = [Ready], calls = [(False, [1 / 32768])]\<rparr>
   \<and> decode (concat [[3, 0], [5, 0]]) = Inr [3 / 32768, 5 / 32768]
   \<and> External ''boom'' \<noteq> KeyboardInterrupt
   \<and> main (\<lambda>name cpu. Inr (\<lambda>audio. if length audio = 1 then Inr ''hi'' else Inl (External ''boom'')))
        Small 4000000 ([Drain 0 [[1, 0]]] @ Drain 1000000 [[3, 0], [5, 0]] # [Interrupt])
     = \<lparr>console = [Ready], saved_file = None, status = Uncaught (External ''boom'')\<rparr>"
proof -
  let ?f = "\<lambda>audio :: float32 list. if length audio = 1 then Inr ''hi'' else Inl (External ''boom'')"
  let ?s = "\<lparr>phrase_time = Some 0, transcription = [''hi''], transcript = ''hi '',
             stdout = [Ready], calls = [(False, [1 / 32768])]\<rparr>"
  have h2: "loop 4000000 (Some ?f) [Drain 0 [[1, 0]]] (initial [Ready]) = Looping ?s"
    by (simp add: initial_def engine_defs string_defs regex_defs)
  have h4: "decode (concat [[3, 0], [5, 0]]) = Inr [3 / 32768, 5 / 32768]"
    by (simp add: decode_def astype_float32_def word_cat_eq)
  note recognition_failure_not_persisted
    [where from_pretrained = "\<lambda>name cpu. Inr ?f" and m = Small and f = ?f
       and timeout = 4000000 and pre = "[Drain 0 [[1, 0]]]" and s = ?s
       and q = "[[3, 0], [5, 0]]" and a = "[3 / 32768, 5 / 32768]"
       and e = "External ''boom''" and now = 1000000 and rest = "[Interrupt]"]
  with h2 h4 show ?thesis by simp
qed

section \<open>Audio decoding is the normalisation contract\<close>

lemma signed16:
  fixes k :: int
  assumes "0 \<le> k" "k < 65536"
  shows "signed_take_bit 15 k = (if k < 32768 then k else k - 65536)"
proof -
  have shift: "signed_take_bit 15 k = (k + 32768) mod 65536 - 32768"
    by (simp add: signed_take_bit_eq_take_bit_shift take_bit_eq_mod)
  show ?thesis
  proof (cases "k < 32768")
    case True
    then have "(k + 32768) mod 65536 = k + 32768"
      using assms by (intro mod_pos_pos_trivial) simp_all
    with True shift show ?thesis by simp
  next
    case False
    have "k + 32768 = (k - 32768) + 65536" by simp
    then have "(k + 32768) mod 65536 = (k - 32768) mod 65536"
      by (simp only: mod_add_self2)
    also have "\<dots> = k - 32768"
      using assms False by (intro mod_pos_pos_trivial) simp_all
    finally show ?thesis using False shift by simp
  qed
qed

lemma sint_word_cat: "sint (word_cat hi lo :: 16 word) = int16_le lo (hi :: byte)"
proof -
  have lo: "0 \<le> uint lo" "uint lo < 256" and hi: "0 \<le> uint hi" "uint hi < 256"
    using uint_bounded [of lo] uint_bounded [of hi] by simp_all
  have cat: "concat_bit 8 (uint lo) (uint hi) = uint lo + 256 * uint hi"
    using lo by (simp add: concat_bit_eq take_bit_eq_mod push_bit_eq_mult)
  have "(word_cat hi lo :: 16 word) = word_of_int (concat_bit 8 (uint lo) (uint hi))"
    by (subst word_cat_eq') (simp only: len_bit0 len_num1, simp)
  then have "sint (word_cat hi lo :: 16 word) = signed_take_bit 15 (uint lo + 256 * uint hi)"
    by (simp only: sint_sbintrunc' cat) simp
  also have "\<dots> = (if uint lo + 256 * uint hi < 32768 then uint lo + 256 * uint hi
                     else uint lo + 256 * uint hi - 65536)"
    using lo hi by (intro signed16) auto
  finally show ?thesis by (simp add: int16_le_def Let_def)
qed

lemma signed_word_cat:
  "(signed (word_cat hi lo :: 16 word) :: real) = real_of_int (int16_le lo (hi :: byte))"
  by (metis of_int_sint sint_word_cat)

lemma int16_le_range: "- 32768 \<le> int16_le lo hi \<and> int16_le lo hi < 32768"
proof -
  have b: "uint lo < 256" "uint hi < 256"
    using uint_bounded [of lo] uint_bounded [of hi] by simp_all
  define u where "u = uint lo + 256 * uint hi"
  have u: "u < 65536" "0 \<le> u"
    using b by (simp_all add: u_def)
  show ?thesis
  proof (cases "u < 32768")
    case True
    then have "int16_le lo hi = u" by (simp add: int16_le_def Let_def u_def)
    with True u show ?thesis by linarith
  next
    case False
    then have "int16_le lo hi = u - 65536" by (simp add: int16_le_def Let_def u_def)
    with False u show ?thesis by linarith
  qed
qed

lemma is_float32_int16:
  assumes "- 32768 \<le> k" "k < 32768"
  shows "is_float32 (real_of_int k)" and "is_float32 (real_of_int k / 32768)"
proof -
  have m: "\<bar>k\<bar> < 2 ^ 24" using assms by simp
  have "real_of_int k = real_of_int k * 2 powr real_of_int 0" by simp
  with m show "is_float32 (real_of_int k)"
    unfolding is_float32_def by (intro exI [of _ k] exI [of _ 0]) simp
  have "(2::real) powr real_of_int (- 15) = 1 / 32768"
    by (simp add: powr_minus_divide)
  then have "real_of_int k / 32768 = real_of_int k * 2 powr real_of_int (- 15)" by simp
  with m show "is_float32 (real_of_int k / 32768)"
    unfolding is_float32_def by (intro exI [of _ k] exI [of _ "- 15"]) simp
qed

lemma frombuffer_odd: "odd (length bs) \<Longrightarrow> frombuffer_int16 bs = Inl ValueError"
  by (induction bs rule: frombuffer_int16.induct) (auto split: sum.splits)

lemma frombuffer_even:
  "even (length bs) \<Longrightarrow>
     frombuffer_int16 bs =
       Inr (map (\<lambda>i. word_cat (bs ! (2 * i + 1)) (bs ! (2 * i))) [0 ..< length bs div 2])"
proof (induction bs rule: frombuffer_int16.induct)
  case 1
  show ?case by simp
next
  case (2 b)
  then show ?case by simp
next
  case (3 lo hi bs)
  then have IH: "frombuffer_int16 bs =
       Inr (map (\<lambda>i. word_cat (bs ! (2 * i + 1)) (bs ! (2 * i))) [0 ..< length bs div 2])"
    by simp
  have "[0 ..< length (lo # hi # bs) div 2] = 0 # map Suc [0 ..< length bs div 2]"
    by (simp add: upt_conv_Cons map_Suc_upt del: upt_Suc)
  then show ?case by (simp add: IH comp_def)
qed

lemma decode_even: "even (length bs) \<Longrightarrow> decode bs = Inr (pcm_samples bs)"
  by (simp add: decode_def frombuffer_even pcm_samples_def astype_float32_def signed_word_cat comp_def)

lemma decode_odd: "odd (length bs) \<Longrightarrow> decode bs = Inl ValueError"
  by (simp add: decode_def frombuffer_odd)

lemma pcm_samples_float32:
  assumes "x \<in> set (pcm_samples bs)"
  shows "is_float32 x \<and> - 1 \<le> x \<and> x < 1"
proof -
  from assms obtain lo hi where x: "x = real_of_int (int16_le lo hi) / 32768"
    by (auto simp: pcm_samples_def)
  have r: "- 32768 \<le> int16_le lo hi" "int16_le lo hi < 32768"
    using int16_le_range [of lo hi] by simp_all
  then have "is_float32 x" unfolding x by (rule is_float32_int16)
  moreover have "- 1 \<le> x" "x < 1" using r by (simp_all add: x)
  ultimately show ?thesis by simp
qed

text \<open>
  Claim C9. A buffer of an even number of bytes decodes to the samples of the contract:
  sample \<open>i\<close> is the signed 16-bit value of bytes \<open>2i\<close> (low) and \<open>2i+1\<close> (high), divided by
  32768. Each such value is a float32 in \<open>[-1, 1)\<close>, so neither the conversion nor the
  division rounds, and the real number fixes the bits (no negative zero arises). A buffer of
  odd size raises ValueError. The decoding depends on the bytes alone: two passes of the
  loop over the same drained chunks, whatever the state, the clock and the recogniser, pass
  the same audio, which is the decoding of the concatenated chunks.
\<close>

theorem decode_normalisation:
  "(even (length bs) \<longrightarrow>
      decode bs = Inr (pcm_samples bs)
      \<and> length (pcm_samples bs) = length bs div 2
      \<and> (\<forall>x \<in> set (pcm_samples bs). is_float32 x \<and> - 1 \<le> x \<and> x < 1))
   \<and> (odd (length bs) \<longrightarrow> decode bs = Inl ValueError)
   \<and> (q \<noteq> [] \<longrightarrow> iteration t1 (Some f1) n1 q s1 = Inr s1' \<longrightarrow>
        iteration t2 (Some f2) n2 q s2 = Inr s2' \<longrightarrow>
        snd (last (calls s1')) = snd (last (calls s2'))
        \<and> decode (concat q) = Inr (snd (last (calls s1'))))"
proof (intro conjI impI)
  assume "even (length bs)"
  then show "decode bs = Inr (pcm_samples bs)" by (rule decode_even)
  show "length (pcm_samples bs) = length bs div 2" by (simp add: pcm_samples_def)
  show "\<forall>x \<in> set (pcm_samples bs). is_float32 x \<and> - 1 \<le> x \<and> x < 1"
    by (blast dest: pcm_samples_float32)
next
  assume "odd (length bs)"
  then show "decode bs = Inl ValueError" by (rule decode_odd)
next
  assume q: "q \<noteq> []" and 1: "iteration t1 (Some f1) n1 q s1 = Inr s1'"
    and 2: "iteration t2 (Some f2) n2 q s2 = Inr s2'"
  from 1 q obtain a1 where a1: "decode (concat q) = Inr a1" "snd (last (calls s1')) = a1"
    by (elim iteration_Inr) simp_all
  from 2 q obtain a2 where a2: "decode (concat q) = Inr a2" "snd (last (calls s2')) = a2"
    by (elim iteration_Inr) simp_all
  from a1 a2 show "snd (last (calls s1')) = snd (last (calls s2'))" by simp
  from a1 show "decode (concat q) = Inr (snd (last (calls s1')))" by simp
qed

theorem decode_normalisation_witness:
  "even (length [1, 0, 255, 255, 0, 128 :: byte])
   \<and> decode [1, 0, 255, 255, 0, 128] = Inr [1 / 32768, - 1 / 32768, - 1]
   \<and> pcm_samples [1, 0, 255, 255, 0, 128] = [1 / 32768, - 1 / 32768, - 1]
   \<and> odd (length [1, 0, 255 :: byte])
   \<and> decode [1, 0, 255] = Inl ValueError
   \<and> iteration 4000000 (Some (\<lambda>audio. Inr ''hi'')) 0 [[1, 0], [255, 255]] (initial [])
       = Inr \<lparr>phrase_time = Some 0, transcription = [''hi''], transcript = ''hi '',
               stdout = [], calls = [(False, [1 / 32768, - 1 / 32768])]\<rparr>
   \<and> iteration 2000000 (Some (\<lambda>audio. Inr ''ho'')) 9 [[1, 0], [255, 255]] (initial [Ready])
       = Inr \<lparr>phrase_time = Some 9, transcription = [''ho''], transcript = ''ho '',
               stdout = [Ready], calls = [(False, [1 / 32768, - 1 / 32768])]\<rparr>
   \<and> decode (concat [[1, 0], [255, 255]]) = Inr [1 / 32768, - 1 / 32768]"
proof -
  let ?s1 = "\<lparr>phrase_time = Some 0, transcription = [''hi''], transcript = ''hi '',
               stdout = [], calls = [(False, [1 / 32768, - 1 / 32768 :: float32])]\<rparr>"
  let ?s2 = "\<lparr>phrase_time = Some 9, transcription = [''ho''], transcript = ''ho '',
               stdout = [Ready], calls = [(False, [1 / 32768, - 1 / 32768 :: float32])]\<rparr>"
  have i1: "iteration 4000000 (Some (\<lambda>audio. Inr ''hi'')) 0 [[1, 0], [255, 255]] (initial []) = Inr ?s1"
    by (simp add: initial_def engine_defs string_defs regex_defs)
  have i2: "iteration 2000000 (Some (\<lambda>audio. Inr ''ho'')) 9 [[1, 0], [255, 255]] (initial [Ready]) = Inr ?s2"
    by (simp add: initial_def engine_defs string_defs regex_defs)
  have q: "[[1, 0], [255, 255 :: byte]] \<noteq> []" by simp
  note decode_normalisation
    [where q = "[[1, 0], [255, 255]]" and ?t1.0 = 4000000 and ?f1.0 = "\<lambda>audio. Inr ''hi''"
       and ?n1.0 = 0 and ?s1.0 = "initial []" and ?s1' = ?s1
       and ?t2.0 = 2000000 and ?f2.0 = "\<lambda>audio. Inr ''ho''"
       and ?n2.0 = 9 and ?s2.0 = "initial [Ready]" and ?s2' = ?s2]
  with q i1 i2 have c: "decode (concat [[1, 0], [255, 255]]) = Inr [1 / 32768, - 1 / 32768]"
    by simp
  have e: "even (length [1, 0, 255, 255, 0, 128 :: byte])" by simp
  have o: "odd (length [1, 0, 255 :: byte])" by simp
  have d: "decode [1, 0, 255, 255, 0, 128] = Inr [1 / 32768, - 1 / 32768, - 1]"
    by (simp add: decode_def astype_float32_def word_cat_eq)
  from decode_normalisation [of "[1, 0, 255, 255, 0, 128]"] e d
  have p: "pcm_samples [1, 0, 255, 255, 0, 128] = [1 / 32768, - 1 / 32768, - 1]" by simp
  from decode_normalisation [of "[1, 0, 255]"] o
  have "decode [1, 0, 255] = Inl ValueError" by blast
  with e o d p i1 i2 c show ?thesis by simp
qed

section \<open>Segmentation and the audio passed to the recogniser\<close>

lemma loop_trace:
  assumes "loop timeout (Some f) (map (\<lambda>(now, q). Drain now q) ds) s = Looping s'"
    and "\<forall>(now, q) \<in> set ds. q \<noteq> []"
  shows "map fst (calls s') = map fst (calls s) @ gap_flags timeout (phrase_time s) (map fst ds)
         \<and> map (Inr \<circ> snd) (calls s') = map (Inr \<circ> snd) (calls s) @ map (\<lambda>(now, q). decode (concat q)) ds
         \<and> phrase_time s' = (if ds = [] then phrase_time s else Some (fst (last ds)))"
  using assms
proof (induction ds arbitrary: s)
  case Nil
  then show ?case by simp
next
  case (Cons d ds)
  obtain now q where d: "d = (now, q)" by (cases d)
  from Cons.prems(2) d have q: "q \<noteq> []" by simp
  from Cons.prems(1) d obtain s1 where
    it: "iteration timeout (Some f) now q s = Inr s1" and
    rest: "loop timeout (Some f) (map (\<lambda>(now, q). Drain now q) ds) s1 = Looping s'"
    by (auto split: sum.splits prod.splits if_splits)
  from it q obtain a where
    a: "decode (concat q) = Inr a" and
    c1: "calls s1 = calls s @ [(fst (segment timeout (phrase_time s) now), a)]" and
    p1: "phrase_time s1 = Some now"
    by (elim iteration_Inr) simp_all
  from Cons.prems(2) have "\<forall>(now, q) \<in> set ds. q \<noteq> []" by simp
  from Cons.IH [OF rest this] show ?case
    by (simp add: d a c1 p1 segment_def)
qed

lemma gap_flags_length: "length (gap_flags timeout prev ts) = length ts"
  by (induction ts arbitrary: prev) simp_all

lemma gap_flags_nth:
  "i < length ts \<Longrightarrow>
     gap_flags timeout prev ts ! i =
       (case (if i = 0 then prev else Some (ts ! (i - 1))) of
          None \<Rightarrow> False
        | Some p \<Rightarrow> ts ! i - p > timeout)"
proof (induction ts arbitrary: prev i)
  case Nil
  then show ?case by simp
next
  case (Cons t ts)
  show ?case
  proof (cases i)
    case 0
    then show ?thesis by (simp split: option.splits)
  next
    case (Suc j)
    with Cons.prems have "j < length ts" by simp
    from Cons.IH [OF this, of "Some t"] Suc show ?thesis
      by (cases j) simp_all
  qed
qed

text \<open>
  Claim C2, as stated, at two drains one second apart (no boundary, the timeout being four
  seconds): the second call of the recogniser gets the sample of the second drain only, while
  the chunks of both drains decode to two samples.
\<close>

theorem recogniser_gets_current_drain_counterexample:
  "loop 4000000 (Some (\<lambda>audio. Inr ''hi'')) [Drain 0 [[1, 0]], Drain 1000000 [[3, 0]]] (initial [])
     = Looping \<lparr>phrase_time = Some 1000000, transcription = [''hihi''], transcript = ''hi hi '',
                stdout = [], calls = [(False, [1 / 32768]), (False, [3 / 32768])]\<rparr>
   \<and> decode (concat [[1, 0], [3, 0]]) = Inr [1 / 32768, 3 / 32768]"
  by (simp add: initial_def engine_defs string_defs regex_defs)

text \<open>
  Claim C2, amended. There is no phrase buffer: for every sequence of non-empty drains, with
  or without a boundary between them, the audio passed to the recogniser on the n-th drain is
  the decoding of the chunks of the n-th drain alone, concatenated in arrival order.
\<close>

theorem recogniser_gets_current_drain:
  assumes "loop timeout (Some f) (map (\<lambda>(now, q). Drain now q) ds) (initial p) = Looping s'"
    and "\<forall>(now, q) \<in> set ds. q \<noteq> []"
  shows "length (calls s') = length ds
         \<and> (\<forall>n < length ds. decode (concat (snd (ds ! n))) = Inr (snd (calls s' ! n)))"
proof -
  from loop_trace [OF assms]
  have m: "map (Inr \<circ> snd) (calls s') = map (\<lambda>(now, q). decode (concat q)) ds"
    by (simp add: initial_def)
  then have len: "length (calls s') = length ds"
    by (metis length_map)
  have "decode (concat (snd (ds ! n))) = Inr (snd (calls s' ! n))" if "n < length ds" for n
  proof -
    have "map (Inr \<circ> snd) (calls s') ! n = map (\<lambda>(now, q). decode (concat q)) ds ! n"
      by (simp only: m)
    with that len show ?thesis by (simp add: case_prod_beta)
  qed
  with len show ?thesis by blast
qed

theorem recogniser_gets_current_drain_witness:
  "loop 4000000 (Some (\<lambda>audio. Inr ''hi''))
       (map (\<lambda>(now, q). Drain now q) [(0, [[1, 0]]), (1000000, [[3, 0], [5, 0]])]) (initial [])
     = Looping \<lparr>phrase_time = Some 1000000, transcription = [''hihi''], transcript = ''hi hi '',
                stdout = [], calls = [(False, [1 / 32768]), (False, [3 / 32768, 5 / 32768])]\<rparr>
   \<and> [[1, 0 :: byte]] \<noteq> [] \<and> [[3, 0], [5, 0 :: byte]] \<noteq> []
   \<and> decode (concat [[3, 0], [5, 0]]) = Inr [3 / 32768, 5 / 32768]"
proof -
  let ?ds = "[(0 :: timestamp, [[1, 0 :: byte]]), (1000000, [[3, 0], [5, 0]])]"
  let ?s = "\<lparr>phrase_time = Some 1000000, transcription = [''hihi''], transcript = ''hi hi '',
             stdout = [], calls = [(False, [1 / 32768 :: float32]), (False, [3 / 32768, 5 / 32768])]\<rparr>"
  have run: "loop 4000000 (Some (\<lambda>audio. Inr ''hi'')) (map (\<lambda>(now, q). Drain now q) ?ds) (initial [])
               = Looping ?s"
    by (simp add: initial_def engine_defs string_defs regex_defs)
  have ne: "\<forall>(now, q) \<in> set ?ds. q \<noteq> []" by simp
  from recogniser_gets_current_drain [OF run ne]
  have all: "\<forall>n < length ?ds. decode (concat (snd (?ds ! n))) = Inr (snd (calls ?s ! n))"
    by blast
  from all [rule_format, of 1]
  have "decode (concat [[3, 0], [5, 0]]) = Inr [3 / 32768, 5 / 32768]" by simp
  with run show ?thesis by simp
qed

text \<open>
  Claim C6. Over any sequence of non-empty drains from the start of the session,
  \<open>phrase_complete\<close> is set on a drain exactly when it is not the first and the time since the
  drain before exceeds the timeout strictly; afterwards \<open>phrase_time\<close> is the time of the last
  drain. A pass that finds the queue empty changes nothing, and a pass that finds audio sets
  \<open>phrase_time\<close> to the clock reading, also when the pass then raises.
\<close>

theorem segmentation:
  assumes "loop timeout (Some f) (map (\<lambda>(now, q). Drain now q) ds) (initial p) = Looping s'"
    and "\<forall>(now, q) \<in> set ds. q \<noteq> []"
  shows "length (calls s') = length ds
         \<and> (\<forall>i < length ds.
               fst (calls s' ! i) = (0 < i \<and> fst (ds ! i) - fst (ds ! (i - 1)) > timeout))
         \<and> phrase_time s' = (if ds = [] then None else Some (fst (last ds)))
         \<and> (\<forall>m now s. iteration timeout m now [] s = Inr s)
         \<and> (\<forall>m now q s. q \<noteq> [] \<longrightarrow>
               phrase_time (case iteration timeout m now q s of Inl (e, s1) \<Rightarrow> s1 | Inr s1 \<Rightarrow> s1)
                 = Some now)"
proof (intro conjI allI impI)
  from loop_trace [OF assms]
  have m: "map fst (calls s') = gap_flags timeout None (map fst ds)"
    and pt: "phrase_time s' = (if ds = [] then None else Some (fst (last ds)))"
    by (simp_all add: initial_def)
  from m have "length (map fst (calls s')) = length (gap_flags timeout None (map fst ds))"
    by (simp only:)
  then show len: "length (calls s') = length ds" by (simp add: gap_flags_length)
  show "phrase_time s' = (if ds = [] then None else Some (fst (last ds)))" by (rule pt)
  fix i
  assume i: "i < length ds"
  have "fst (calls s' ! i) = map fst (calls s') ! i" using i len by simp
  also have "\<dots> = gap_flags timeout None (map fst ds) ! i" by (simp only: m)
  also have "\<dots> = (0 < i \<and> fst (ds ! i) - fst (ds ! (i - 1)) > timeout)"
    using i by (simp add: gap_flags_nth)
  finally show "fst (calls s' ! i) = (0 < i \<and> fst (ds ! i) - fst (ds ! (i - 1)) > timeout)" .
next
  fix m now s
  show "iteration timeout m now [] s = Inr s" by (rule iteration_empty)
next
  fix m now s and q :: "byte list list"
  assume "q \<noteq> []"
  then show "phrase_time (case iteration timeout m now q s of Inl (e, s1) \<Rightarrow> s1 | Inr s1 \<Rightarrow> s1)
                 = Some now"
    by (simp add: iteration_def segment_def Let_def split: sum.splits option.splits prod.splits)
qed

theorem segmentation_witness:
  "loop 4000000 (Some (\<lambda>audio. Inr ''hi''))
       (map (\<lambda>(now, q). Drain now q) [(0, [[1, 0]]), (4000000, [[5, 0]]), (8000001, [[3, 0]])])
       (initial [])
     = Looping \<lparr>phrase_time = Some 8000001, transcription = [''hihi'', ''hi''],
                transcript = ''hi hi hi '', stdout = [],
                calls = [(False, [1 / 32768]), (False, [5 / 32768]), (True, [3 / 32768])]\<rparr>
   \<and> [[1, 0 :: byte]] \<noteq> [] \<and> [[5, 0 :: byte]] \<noteq> [] \<and> [[3, 0 :: byte]] \<noteq> []
   \<and> \<not> (4000000 - 0 > (4000000 :: int)) \<and> 8000001 - 4000000 > (4000000 :: int)"
proof -
  let ?ds = "[(0 :: timestamp, [[1, 0 :: byte]]), (4000000, [[5, 0]]), (8000001, [[3, 0]])]"
  let ?s = "\<lparr>phrase_time = Some 8000001, transcription = [''hihi'', ''hi''],
             transcript = ''hi hi hi '', stdout = [],
             calls = [(False, [1 / 32768 :: float32]), (False, [5 / 32768]), (True, [3 / 32768])]\<rparr>"
  have run: "loop 4000000 (Some (\<lambda>audio. Inr ''hi'')) (map (\<lambda>(now, q). Drain now q) ?ds) (initial [])
               = Looping ?s"
    by (simp add: initial_def engine_defs string_defs regex_defs Let_def)
  have ne: "\<forall>(now, q) \<in> set ?ds. q \<noteq> []" by simp
  from segmentation [OF run ne]
  have all: "\<forall>i < length ?ds.
               fst (calls ?s ! i) = (0 < i \<and> fst (?ds ! i) - fst (?ds ! (i - 1)) > 4000000)"
    by blast
  from all [rule_format, of 1] have "\<not> (4000000 - 0 > (4000000 :: int))" by simp
  moreover from all [rule_format, of 2] have "8000001 - 4000000 > (4000000 :: int)" by simp
  ultimately show ?thesis using run by simp
qed

section \<open>The command accumulator\<close>

lemma feed_cases:
  "feed acc t =
     (if search (lower (acc @ t @ '' '')) = None then (acc @ t @ '' '', [])
      else ([], [UserSays (get_cmd (lower (acc @ t @ '' '')))]))"
  by (simp add: feed_def Let_def split: option.splits)

lemma iteration_Inl_unchanged:
  "iteration timeout m now q s = Inl (e, s1) \<Longrightarrow> transcript s1 = transcript s \<and> stdout s1 = stdout s"
  by (auto simp: iteration_def segment_def Let_def split: if_splits sum.splits option.splits prod.splits)

text \<open>
  Claim C8. A feed that finds no match leaves the accumulator as the old one followed by the
  new text and a space; a feed that finds a match empties it and prints one command, and the
  feed after it behaves as a feed on the empty accumulator. In the loop, a pass that succeeds
  updates the accumulator and the console by one feed of the stripped recognised text; a pass
  that raises, or finds the queue empty, leaves both as they were.
\<close>

theorem accumulator_reset:
  "(search (lower (acc @ t @ '' '')) = None \<longrightarrow> feed acc t = (acc @ t @ '' '', []))
   \<and> (search (lower (acc @ t @ '' '')) \<noteq> None \<longrightarrow>
        feed acc t = ([], [UserSays (get_cmd (lower (acc @ t @ '' '')))])
        \<and> feed (fst (feed acc t)) t' = feed [] t')
   \<and> (q \<noteq> [] \<longrightarrow> iteration timeout (Some f) now q s = Inr s' \<longrightarrow>
        (\<exists>r. transcript s' = fst (feed (transcript s) (strip r))
             \<and> stdout s' = stdout s @ snd (feed (transcript s) (strip r))))
   \<and> (iteration timeout m now q s = Inl (e, s1) \<longrightarrow>
        transcript s1 = transcript s \<and> stdout s1 = stdout s)
   \<and> iteration timeout m now [] s = Inr s"
proof (intro conjI impI)
  assume "search (lower (acc @ t @ '' '')) = None"
  then show "feed acc t = (acc @ t @ '' '', [])" by (simp add: feed_cases)
next
  assume m: "search (lower (acc @ t @ '' '')) \<noteq> None"
  then show "feed acc t = ([], [UserSays (get_cmd (lower (acc @ t @ '' '')))])"
    by (simp add: feed_cases)
  then show "feed (fst (feed acc t)) t' = feed [] t'" by simp
next
  assume "q \<noteq> []" and "iteration timeout (Some f) now q s = Inr s'"
  then show "\<exists>r. transcript s' = fst (feed (transcript s) (strip r))
             \<and> stdout s' = stdout s @ snd (feed (transcript s) (strip r))"
    by (elim iteration_Inr) auto
next
  assume "iteration timeout m now q s = Inl (e, s1)"
  then show "transcript s1 = transcript s" "stdout s1 = stdout s"
    by (simp_all add: iteration_Inl_unchanged)
next
  show "iteration timeout m now [] s = Inr s" by (rule iteration_empty)
qed

theorem accumulator_reset_witness:
  "search (lower (''hey hanna '' @ ''open the door'' @ '' '')) = None
   \<and> feed ''hey hanna '' ''open the door'' = (''hey hanna open the door '', [])
   \<and> search (lower (''old words hanna '' @ ''open the door thanks and more'' @ '' '')) \<noteq> None
   \<and> feed ''old words hanna '' ''open the door thanks and more'' = ([], [UserSays (Some ''open the door'')])
   \<and> feed (fst (feed ''old words hanna '' ''open the door thanks and more'')) ''thank you'' = feed [] ''thank you''
   \<and> feed [] ''thank you'' = (''thank you '', [])
   \<and> [[1, 0 :: byte]] \<noteq> []
   \<and> iteration 4000000 (Some (\<lambda>audio. Inr '' open the door, thanks. '')) 5 [[1, 0]]
         ((initial [Ready])\<lparr>transcript := ''hey hanna ''\<rparr>)
       = Inr \<lparr>phrase_time = Some 5, transcription = [''open the door, thanks.''], transcript = [],
               stdout = [Ready, UserSays (Some ''open the door'')],
               calls = [(False, [1 / 32768])]\<rparr>
   \<and> iteration 4000000 (Some (\<lambda>audio. Inl (External ''boom''))) 5 [[1, 0]]
         ((initial [Ready])\<lparr>transcript := ''hey hanna ''\<rparr>)
       = Inl (External ''boom'',
              \<lparr>phrase_time = Some 5, transcription = [[]], transcript = ''hey hanna '',
               stdout = [Ready], calls = [(False, [1 / 32768])]\<rparr>)"
proof -
  let ?s = "(initial [Ready])\<lparr>transcript := ''hey hanna ''\<rparr>"
  let ?ok = "\<lparr>phrase_time = Some 5, transcription = [''open the door, thanks.''], transcript = [],
               stdout = [Ready, UserSays (Some ''open the door'')],
               calls = [(False, [1 / 32768 :: float32])]\<rparr>"
  let ?ko = "\<lparr>phrase_time = Some 5, transcription = [[]], transcript = ''hey hanna '',
               stdout = [Ready], calls = [(False, [1 / 32768 :: float32])]\<rparr>"
  have i1: "iteration 4000000 (Some (\<lambda>audio. Inr '' open the door, thanks. '')) 5 [[1, 0]] ?s = Inr ?ok"
    by (simp add: initial_def engine_defs string_defs regex_defs Let_def)
  have i2: "iteration 4000000 (Some (\<lambda>audio. Inl (External ''boom''))) 5 [[1, 0]] ?s
              = Inl (External ''boom'', ?ko)"
    by (simp add: initial_def engine_defs)
  have q: "[[1, 0 :: byte]] \<noteq> []" by simp
  note accumulator_reset
    [where q = "[[1, 0]]" and timeout = 4000000 and now = 5 and s = ?s and s' = ?ok
       and f = "\<lambda>audio. Inr '' open the door, thanks. ''"
       and m = "Some (\<lambda>audio. Inl (External ''boom''))" and e = "External ''boom''" and ?s1.0 = ?ko]
  with q i1 i2 have u: "transcript ?ko = transcript ?s \<and> stdout ?ko = stdout ?s" by blast
  have n: "search (lower (''hey hanna '' @ ''open the door'' @ '' '')) = None"
    by (simp add: string_defs regex_defs)
  have m: "search (lower (''old words hanna '' @ ''open the door thanks and more'' @ '' '')) \<noteq> None"
    by (simp add: string_defs regex_defs)
  have g: "get_cmd (lower (''old words hanna '' @ ''open the door thanks and more'' @ '' ''))
             = Some ''open the door''"
    by (simp add: string_defs regex_defs)
  have e: "feed [] ''thank you'' = (''thank you '', [])"
    by (simp add: feed_def string_defs regex_defs)
  from accumulator_reset [of "''hey hanna ''" "''open the door''"] n
  have 1: "feed ''hey hanna '' ''open the door'' = (''hey hanna open the door '', [])" by simp
  from accumulator_reset [of "''old words hanna ''" "''open the door thanks and more''" "''thank you''"] m g
  have 2: "feed ''old words hanna '' ''open the door thanks and more'' = ([], [UserSays (Some ''open the door'')])"
    and 3: "feed (fst (feed ''old words hanna '' ''open the door thanks and more'')) ''thank you'' = feed [] ''thank you''"
    by simp_all
  from n m 1 2 3 e q i1 i2 show ?thesis by simp
qed

end
